theory Spec2Isabelle
  imports Complex_Main "HOL-Library.Word" "HOL-Library.Multiset"
begin

section \<open>Data model (main.go, lines 16-25)\<close>

type_synonym byte = "8 word"

text \<open>A Go \<open>error\<close> value is identified with the text that \<open>%v\<close> prints for it.\<close>

type_synonym error = string

record File =
  Path :: string
  Hash :: string
  Size :: "64 word"

record HashError =
  Path :: string
  Err :: error

text \<open>
  What \<open>os.FileInfo\<close> offers to this program: the kind of the entry (\<open>IsDir\<close> reads it),
  the size in bytes (an \<open>int64\<close>) and the identity that \<open>os.SameFile\<close> compares.
\<close>

datatype FileMode =
  ModeRegular | ModeDir | ModeSymlink | ModeNamedPipe | ModeSocket | ModeDevice
  | ModeCharDevice | ModeIrregular

record FileInfo =
  Mode :: FileMode
  Size :: "64 word"
  Ident :: nat

definition IsDir :: "FileInfo \<Rightarrow> bool" where
  "IsDir info = (Mode info = ModeDir)"

definition IsRegular :: "FileInfo \<Rightarrow> bool" where
  "IsRegular info = (Mode info = ModeRegular)"

section \<open>The hasher: \<open>calculateHash\<close> (lines 27-47)\<close>

text \<open>
  The calls of the hasher into the operating system and into \<open>crypto/md5\<close> are parameters:
  \<open>os_Open\<close> yields an error or a handle, \<open>io_Copy\<close> an error or the bytes that were fed to the
  digest, \<open>file_Stat\<close> an error or the file information, \<open>md5_Sum\<close> the 16-byte digest.
\<close>

record reader =
  os_Open :: "string \<Rightarrow> error + nat"
  io_Copy :: "nat \<Rightarrow> error + byte list"
  file_Stat :: "nat \<Rightarrow> error + FileInfo"
  md5_Sum :: "byte list \<Rightarrow> byte list"

text \<open>\<open>fmt.Sprintf("%x", bs)\<close> on a byte slice: two lower-case hexadecimal digits per byte.\<close>

definition hexdigit :: "nat \<Rightarrow> char" where
  "hexdigit n = ''0123456789abcdef'' ! (n mod 16)"

definition hex_byte :: "byte \<Rightarrow> string" where
  "hex_byte b = [hexdigit (unat b div 16), hexdigit (unat b mod 16)]"

definition hex :: "byte list \<Rightarrow> string" where
  "hex bs = concat (map hex_byte bs)"

text \<open>
  One goroutine running \<open>calculateHash\<close> is the sequence of its visible actions, in program
  order: the send into \<open>goroutineCh\<close> (\<open>Acquire\<close>, line 30), the three system calls, the one
  send on \<open>hashCh\<close> or \<open>errCh\<close>, and the deferred calls, which run last-registered first:
  \<open>file.Close\<close> (once line 37 was reached), the receive from \<open>goroutineCh\<close> (\<open>Release\<close>,
  line 29), \<open>wg.Done\<close> (line 28). \<open>file.Stat\<close>'s error is discarded on line 45; when it fails
  the returned \<open>FileInfo\<close> is nil and \<open>stat.Size()\<close> panics: the deferred calls still run, and
  then the process dies (\<open>Crash\<close>).
\<close>

datatype action =
  Acquire | OsOpen string | IoCopy | FileStat | SendFile File | SendErr HashError
  | Panic | FileClose | Release | WgDone | Crash

definition deferred :: "bool \<Rightarrow> action list" where
  "deferred opened = (if opened then [FileClose] else []) @ [Release, WgDone]"

definition calculateHash :: "reader \<Rightarrow> string \<Rightarrow> action list" where
  "calculateHash env filePath =
     Acquire # OsOpen filePath #
     (case os_Open env filePath of
        Inl err \<Rightarrow> SendErr \<lparr>HashError.Path = filePath, Err = err\<rparr> # deferred False
      | Inr file \<Rightarrow> IoCopy #
          (case io_Copy env file of
             Inl err \<Rightarrow> SendErr \<lparr>HashError.Path = filePath, Err = err\<rparr> # deferred True
           | Inr data \<Rightarrow> FileStat #
               (case file_Stat env file of
                  Inl err \<Rightarrow> Panic # deferred True @ [Crash]
                | Inr stat \<Rightarrow>
                    SendFile \<lparr>File.Path = filePath, Hash = hex (md5_Sum env data),
                              Size = FileInfo.Size stat\<rparr> # deferred True)))"

text \<open>The messages a goroutine puts on its two output channels.\<close>

fun messages :: "action list \<Rightarrow> (HashError + File) list" where
  "messages [] = []"
| "messages (SendFile f # as) = Inr f # messages as"
| "messages (SendErr e # as) = Inl e # messages as"
| "messages (a # as) = messages as"

text \<open>A reader on which the file opens and is read, and \<open>file.Stat\<close> then fails.\<close>

definition stat_fails :: reader where
  "stat_fails = \<lparr>os_Open = (\<lambda>p. Inr 3), io_Copy = (\<lambda>h. Inr []),
     file_Stat = (\<lambda>h. Inl ''stale file handle''), md5_Sum = (\<lambda>bs. [])\<rparr>"

section \<open>The governor: \<open>goroutineCh\<close> (lines 29-30 and 191)\<close>

text \<open>
  \<open>goroutineCh\<close> is a buffered channel of capacity \<open>C = runtime.NumCPU()\<close>. A pool is the
  goroutines the walk has spawned, each with the actions it has done and those it has yet
  to do, the number of elements in the channel's buffer, and whether the process has died.
  The scheduler picks a goroutine; it performs its next action when that action can run:
  a send into the full buffer and a receive from the empty one block (the pool stays as
  it is), and nothing runs once the process has died.
\<close>

record pool =
  tasks :: "(action list \<times> action list) list"
  slots :: nat
  crashed :: bool

definition advance :: "pool \<Rightarrow> nat \<Rightarrow> pool" where
  "advance s i = (case tasks s ! i of (d, r) \<Rightarrow> s\<lparr>tasks := (tasks s)[i := (d @ [hd r], tl r)]\<rparr>)"

definition step :: "nat \<Rightarrow> pool \<Rightarrow> nat \<Rightarrow> pool" where
  "step C s i =
     (if crashed s \<or> length (tasks s) \<le> i then s
      else case snd (tasks s ! i) of
        [] \<Rightarrow> s
      | Acquire # r \<Rightarrow> if slots s < C then (advance s i)\<lparr>slots := slots s + 1\<rparr> else s
      | Release # r \<Rightarrow> if 0 < slots s then (advance s i)\<lparr>slots := slots s - 1\<rparr> else s
      | Crash # r \<Rightarrow> (advance s i)\<lparr>crashed := True\<rparr>
      | a # r \<Rightarrow> advance s i)"

definition spawn :: "reader \<Rightarrow> string list \<Rightarrow> pool" where
  "spawn env paths = \<lparr>tasks = map (\<lambda>p. ([], calculateHash env p)) paths, slots = 0, crashed = False\<rparr>"

definition exec :: "nat \<Rightarrow> pool \<Rightarrow> nat list \<Rightarrow> pool" where
  "exec C s sched = foldl (step C) s sched"

text \<open>
  A goroutine is mid-flight from its send into \<open>goroutineCh\<close> until its receive from it.
\<close>

definition midflight :: "action list \<times> action list \<Rightarrow> bool" where
  "midflight t = (Acquire \<in> set (fst t) \<and> Release \<notin> set (fst t))"

definition inflight :: "pool \<Rightarrow> nat" where
  "inflight s = length (filter midflight (tasks s))"

text \<open>
  The shape of a goroutine that the invariant of the pool relies on: the first action is
  the acquisition, and there is one acquisition and one release in all.
\<close>

definition task_ok :: "action list \<times> action list \<Rightarrow> bool" where
  "task_ok t = (let tr = fst t @ snd t in
     tr \<noteq> [] \<and> hd tr = Acquire \<and> count_list tr Acquire = 1 \<and> count_list tr Release = 1)"

definition pool_inv :: "nat \<Rightarrow> pool \<Rightarrow> bool" where
  "pool_inv C s = ((\<forall>t \<in> set (tasks s). task_ok t) \<and> slots s = inflight s \<and> slots s \<le> C)"

text \<open>The system calls that make up the hashing of a file.\<close>

fun hashing_op :: "action \<Rightarrow> bool" where
  "hashing_op (OsOpen p) = True"
| "hashing_op IoCopy = True"
| "hashing_op FileStat = True"
| "hashing_op a = False"

section \<open>The aggregator: the \<open>select\<close> loop of \<open>main\<close> (lines 219-241)\<close>

text \<open>
  What the loop can observe of a channel: the values its senders deliver, in order,
  and whether the channel is closed after them (\<open>closes\<close>; when it is not, a receive
  blocks for ever once the values are consumed). The variable holding the channel is
  \<open>None\<close> once the loop has set it to nil. A receive is ready when a value is pending or
  the channel is closed; a nil channel is never ready.
\<close>

record 'a stream =
  pending :: "'a list"
  closes :: bool

text \<open>
  The variables of \<open>main\<close> that the loop writes: \<open>fileMap\<close>, \<open>scannedCount\<close>, \<open>totalSize\<close>
  (an \<open>int64\<close>, which wraps), and the failures written to the log on line 234. The progress line
  of line 228 goes to the terminal and is not part of the state.
\<close>

record agg =
  fileMap :: "string \<Rightarrow> File list option"
  scannedCount :: int
  totalSize :: "64 word"
  logged :: "HashError list"

datatype outcome = Exited agg | Blocked agg

fun final :: "outcome \<Rightarrow> agg" where
  "final (Exited st) = st"
| "final (Blocked st) = st"

fun exited :: "outcome \<Rightarrow> bool" where
  "exited (Exited st) = True"
| "exited (Blocked st) = False"

definition ready :: "'a stream option \<Rightarrow> bool" where
  "ready ch = (case ch of None \<Rightarrow> False | Some s \<Rightarrow> pending s \<noteq> [] \<or> closes s)"

definition recvFile :: "File \<Rightarrow> agg \<Rightarrow> agg" where
  "recvFile file st =
     st\<lparr>fileMap := (fileMap st)(Hash file \<mapsto>
            (case fileMap st (Hash file) of None \<Rightarrow> [] | Some fs \<Rightarrow> fs) @ [file]),
        scannedCount := scannedCount st + 1,
        totalSize := totalSize st + File.Size file\<rparr>"

definition recvErr :: "HashError \<Rightarrow> agg \<Rightarrow> agg" where
  "recvErr err st = st\<lparr>logged := logged st @ [err]\<rparr>"

text \<open>
  One \<open>select\<close> per iteration. When no case is ready the loop blocks for ever; when both are,
  the runtime picks one, here by the oracle \<open>sched\<close> at the iteration number. A receive
  on a closed channel yields \<open>ok = false\<close> (the case \<open>[]\<close>) and the variable is set to nil;
  the loop leaves once both variables are nil.
\<close>

fun backlog :: "'a stream option \<Rightarrow> nat" where
  "backlog None = 0"
| "backlog (Some s) = Suc (length (pending s))"

function aggregate ::
  "(nat \<Rightarrow> bool) \<Rightarrow> nat \<Rightarrow> File stream option \<Rightarrow> HashError stream option \<Rightarrow> agg \<Rightarrow> outcome"
where
  "aggregate sched n hashCh errCh st =
     (if \<not> ready hashCh \<and> \<not> ready errCh then Blocked st
      else if ready hashCh \<and> (if ready errCh then sched n else True) then
        (case hashCh of
           None \<Rightarrow> Blocked st
         | Some s \<Rightarrow>
             (case pending s of
                [] \<Rightarrow> if errCh = None then Exited st else aggregate sched (n + 1) None errCh st
              | file # rest \<Rightarrow>
                  aggregate sched (n + 1) (Some (s\<lparr>pending := rest\<rparr>)) errCh (recvFile file st)))
      else
        (case errCh of
           None \<Rightarrow> Blocked st
         | Some s \<Rightarrow>
             (case pending s of
                [] \<Rightarrow> if hashCh = None then Exited st else aggregate sched (n + 1) hashCh None st
              | err # rest \<Rightarrow>
                  aggregate sched (n + 1) hashCh (Some (s\<lparr>pending := rest\<rparr>)) (recvErr err st))))"
  by pat_completeness auto
termination
  by (relation "measure (\<lambda>(sched, n, hashCh, errCh, st). backlog hashCh + backlog errCh)") auto

definition main_init :: agg where
  "main_init = \<lparr>fileMap = Map.empty, scannedCount = 0, totalSize = 0, logged = []\<rparr>"

text \<open>The values still to come on a channel, whether it ends closed, and the state once
  the records \<open>fs\<close> and the failures \<open>es\<close> have all been received.\<close>

fun pend :: "'a stream option \<Rightarrow> 'a list" where
  "pend None = []"
| "pend (Some s) = pending s"

fun will_close :: "'a stream option \<Rightarrow> bool" where
  "will_close None = True"
| "will_close (Some s) = closes s"

definition drain :: "File list \<Rightarrow> HashError list \<Rightarrow> agg \<Rightarrow> agg" where
  "drain fs es st = foldl (\<lambda>s e. recvErr e s) (foldl (\<lambda>s f. recvFile f s) st fs) es"

declare aggregate.simps [simp del]

section \<open>From contents to groups (lines 39-46 and 225)\<close>

text \<open>
  The bytes that \<open>io.Copy\<close> feeds to the digest for a path, and the key under which the
  record of that path is filed: the hexadecimal MD5 digest of those bytes.
\<close>

definition content :: "reader \<Rightarrow> string \<Rightarrow> byte list option" where
  "content env p =
     (case os_Open env p of
        Inl e \<Rightarrow> None
      | Inr h \<Rightarrow> (case io_Copy env h of Inl e \<Rightarrow> None | Inr d \<Rightarrow> Some d))"

definition digest :: "reader \<Rightarrow> string \<Rightarrow> string" where
  "digest env p = (case content env p of None \<Rightarrow> [] | Some d \<Rightarrow> hex (md5_Sum env d))"

text \<open>
  A reader for three files \<open>a\<close>, \<open>b\<close> and \<open>cc\<close>: paths of one character hold the byte
  \<open>0x41\<close>, the others the byte \<open>0x42\<close>; its digest has no collisions.
\<close>

definition demo_reader :: reader where
  "demo_reader =
     \<lparr>os_Open = (\<lambda>p. Inr (length p)),
      io_Copy = (\<lambda>h. Inr (if h = 1 then [0x41] else [0x42])),
      file_Stat = (\<lambda>h. Inr \<lparr>Mode = ModeRegular, Size = 1, Ident = h\<rparr>),
      md5_Sum = (\<lambda>bs. bs)\<rparr>"

definition demo_record :: "string \<Rightarrow> File" where
  "demo_record p = \<lparr>File.Path = p, Hash = digest demo_reader p, Size = 1\<rparr>"

section \<open>Walk and dispatch (lines 195-209)\<close>

text \<open>
  \<open>filepath.Walk\<close> is the library's: it calls the function it is given once per entry,
  in its order, and stops at the first call that returns an error, which it returns. A
  visit is what one call receives: an entry with its \<open>FileInfo\<close> (from \<open>Lstat\<close>, so a
  symbolic link is visited as a link) and a nil error, or a path with the error the
  library met there (the \<open>Lstat\<close> of the root or of an entry, or the listing of a
  directory). The walk is given as the visits the library would make if it were never stopped.
\<close>

datatype visit = Entry string FileInfo | Failed string "FileInfo option" error

text \<open>
  What the callback writes: the goroutines it starts (\<open>go calculateHash(path, ...)\<close>, one
  \<open>wg.Add(1)\<close> each) and \<open>fileCount\<close>.
\<close>

record walk_state =
  dispatched :: "string list"
  fileCount :: int

definition walkFn :: "visit \<Rightarrow> walk_state \<Rightarrow> error option \<times> walk_state" where
  "walkFn v st =
     (case v of
        Failed path info err \<Rightarrow> (Some err, st)
      | Entry path info \<Rightarrow>
          if \<not> IsDir info
          then (None, st\<lparr>dispatched := dispatched st @ [path], fileCount := fileCount st + 1\<rparr>)
          else (None, st))"

fun Walk :: "visit list \<Rightarrow> walk_state \<Rightarrow> error option \<times> walk_state" where
  "Walk [] st = (None, st)"
| "Walk (v # vs) st =
     (case walkFn v st of
        (Some err, st') \<Rightarrow> (Some err, st')
      | (None, st') \<Rightarrow> Walk vs st')"

text \<open>Lines 207-209: an error returned by the walk ends the process (\<open>log.Fatal\<close>).\<close>

datatype scan_result = Fatal error | Scanned walk_state

definition walk_init :: walk_state where
  "walk_init = \<lparr>dispatched = [], fileCount = 0\<rparr>"

definition scan :: "visit list \<Rightarrow> scan_result" where
  "scan vs = (case Walk vs walk_init of (Some err, st) \<Rightarrow> Fatal err | (None, st) \<Rightarrow> Scanned st)"

text \<open>Which visits carry an error, which ones the callback hashes, and the first error of a walk.\<close>

fun failed :: "visit \<Rightarrow> bool" where
  "failed (Failed path info err) = True"
| "failed (Entry path info) = False"

fun hashable :: "visit \<Rightarrow> bool" where
  "hashable (Entry path info) = (\<not> IsDir info)"
| "hashable (Failed path info err) = False"

fun visit_path :: "visit \<Rightarrow> string" where
  "visit_path (Entry path info) = path"
| "visit_path (Failed path info err) = path"

fun first_error :: "visit list \<Rightarrow> error option" where
  "first_error [] = None"
| "first_error (Entry path info # vs) = first_error vs"
| "first_error (Failed path info err # vs) = Some err"

text \<open>A directory, a regular file and a symbolic link.\<close>

definition dir_info :: FileInfo where "dir_info = \<lparr>Mode = ModeDir, Size = 4096, Ident = 1\<rparr>"
definition reg_info :: FileInfo where "reg_info = \<lparr>Mode = ModeRegular, Size = 10, Ident = 2\<rparr>"
definition link_info :: FileInfo where "link_info = \<lparr>Mode = ModeSymlink, Size = 7, Ident = 3\<rparr>"

section \<open>The action handlers: \<open>moveFiles\<close>, \<open>copyFile\<close>, \<open>deleteFiles\<close> (lines 78-179)\<close>

text \<open>
  The file system is a parameter: a world of type \<open>'w\<close> and the system calls of the
  handlers as functions on it, each returning what the Go call returns (an error or
  nil, for \<open>os.Stat\<close> the \<open>FileInfo\<close>) and, for the calls that write, the world after
  the call. \<open>sys_Copy dest src\<close> is \<open>io.Copy(destFile, sourceFile)\<close> on the two files that
  \<open>copyFile\<close> has opened. \<open>filepath.Join\<close> and \<open>filepath.Base\<close> are the library's.
\<close>

datatype syscall =
  Stat string | Rename string string | Remove string
  | Open string | Create string | Copy string string | Close string

record 'w os =
  sys_Stat :: "string \<Rightarrow> 'w \<Rightarrow> error + FileInfo"
  sys_SameFile :: "FileInfo \<Rightarrow> FileInfo \<Rightarrow> bool"
  sys_Rename :: "string \<Rightarrow> string \<Rightarrow> 'w \<Rightarrow> error option \<times> 'w"
  sys_Remove :: "string \<Rightarrow> 'w \<Rightarrow> error option \<times> 'w"
  sys_Open :: "string \<Rightarrow> 'w \<Rightarrow> error option"
  sys_Create :: "string \<Rightarrow> 'w \<Rightarrow> error option \<times> 'w"
  sys_Copy :: "string \<Rightarrow> string \<Rightarrow> 'w \<Rightarrow> error option \<times> 'w"
  filepath_Join :: "string \<Rightarrow> string \<Rightarrow> string"
  filepath_Base :: "string \<Rightarrow> string"

text \<open>
  A run of a handler carries the world, the system calls issued so far, in order,
  and what was written to standard output (\<open>fmt.Print\<close>) and to the log (\<open>log.Printf\<close>).
\<close>

record 'w run =
  world :: 'w
  calls :: "syscall list"
  stdout :: "string list"
  stderr :: "string list"

definition start :: "'w \<Rightarrow> 'w run" where
  "start w = \<lparr>world = w, calls = [], stdout = [], stderr = []\<rparr>"

definition call :: "syscall \<Rightarrow> 'w run \<Rightarrow> 'w run" where
  "call c st = st\<lparr>calls := calls st @ [c]\<rparr>"

definition print :: "string \<Rightarrow> 'w run \<Rightarrow> 'w run" where
  "print s st = st\<lparr>stdout := stdout st @ [s]\<rparr>"

definition log_Printf :: "string \<Rightarrow> 'w run \<Rightarrow> 'w run" where
  "log_Printf s st = st\<lparr>stderr := stderr st @ [s]\<rparr>"

text \<open>
  \<open>copyFile\<close> (lines 136-154). The deferred \<open>Close\<close> calls run when the function returns,
  the destination's first.
\<close>

definition copyFile :: "'w os \<Rightarrow> string \<Rightarrow> string \<Rightarrow> 'w run \<Rightarrow> error option \<times> 'w run" where
  "copyFile os src dest st =
     (let st1 = call (Open src) st in
      case sys_Open os src (world st1) of
        Some err \<Rightarrow> (Some err, st1)
      | None \<Rightarrow>
          (let (r2, w2) = sys_Create os dest (world st1);
               st2 = (call (Create dest) st1)\<lparr>world := w2\<rparr> in
           case r2 of
             Some err \<Rightarrow> (Some err, call (Close src) st2)
           | None \<Rightarrow>
               (let (r3, w3) = sys_Copy os dest src (world st2);
                    st3 = (call (Copy dest src) st2)\<lparr>world := w3\<rparr> in
                (r3, call (Close src) (call (Close dest) st3)))))"

text \<open>
  The body of the inner loop of \<open>moveFiles\<close> (lines 95-129) for the member \<open>f = files[i]\<close>,
  and that of \<open>deleteFiles\<close> (lines 169-175). Every \<open>continue\<close> ends the body.
\<close>

definition moveOne :: "'w os \<Rightarrow> string \<Rightarrow> File \<Rightarrow> 'w run \<Rightarrow> 'w run" where
  "moveOne os destination f st =
     (let source = File.Path f;
          dest = filepath_Join os destination (filepath_Base os source);
          st1 = call (Stat source) st in
      case sys_Stat os source (world st1) of
        Inl err \<Rightarrow> log_Printf (''Error getting file info for '' @ source @ '': '' @ err) st1
      | Inr srcFileInfo \<Rightarrow>
          (let st2 = call (Stat destination) st1 in
           case sys_Stat os destination (world st2) of
             Inl err \<Rightarrow>
               log_Printf (''Error getting file info for '' @ destination @ '': '' @ err) st2
           | Inr dstFileInfo \<Rightarrow>
               if sys_SameFile os srcFileInfo dstFileInfo then
                 (let (r, w) = sys_Rename os source dest (world st2);
                      st3 = (call (Rename source dest) st2)\<lparr>world := w\<rparr> in
                  case r of
                    Some err \<Rightarrow>
                      log_Printf (''Error moving file '' @ source @ '' to '' @ dest @ '': '' @ err) st3
                  | None \<Rightarrow> print (''Moved file '' @ source @ '' to '' @ dest) st3)
               else
                 (case copyFile os source dest st2 of
                    (Some err, st3) \<Rightarrow>
                      log_Printf (''Error copying file '' @ source @ '' to '' @ dest @ '': '' @ err) st3
                  | (None, st3) \<Rightarrow>
                      (let (r, w) = sys_Remove os source (world st3);
                           st4 = (call (Remove source) st3)\<lparr>world := w\<rparr> in
                       case r of
                         Some err \<Rightarrow> log_Printf (''Error deleting file '' @ source @ '': '' @ err) st4
                       | None \<Rightarrow> print (''Moved file '' @ source @ '' to '' @ dest) st4))))"

definition deleteOne :: "'w os \<Rightarrow> File \<Rightarrow> 'w run \<Rightarrow> 'w run" where
  "deleteOne os f st =
     (let filePath = File.Path f;
          (r, w) = sys_Remove os filePath (world st);
          st1 = (call (Remove filePath) st)\<lparr>world := w\<rparr> in
      case r of
        Some err \<Rightarrow> log_Printf (''Error deleting file '' @ filePath @ '': '' @ err) st1
      | None \<Rightarrow> print (''Deleted file: '' @ filePath) st1)"

text \<open>
  \<open>for i := 1; i < len(files); i++\<close> (lines 94 and 168), from the index \<open>i\<close> on, and the
  outer loop \<open>for _, files := range fileMap\<close> with its guard \<open>len(files) > 1\<close> over the
  entries of the map, given in the order in which \<open>range\<close> visits them (any order).
\<close>

function for_members :: "(File \<Rightarrow> 's \<Rightarrow> 's) \<Rightarrow> File list \<Rightarrow> nat \<Rightarrow> 's \<Rightarrow> 's" where
  "for_members body files i st =
     (if i < length files then for_members body files (i + 1) (body (files ! i) st) else st)"
  by pat_completeness auto
termination
  by (relation "measure (\<lambda>(body, files, i, st). length files - i)") auto

declare for_members.simps [simp del]

definition for_groups :: "(File \<Rightarrow> 's \<Rightarrow> 's) \<Rightarrow> (string \<times> File list) list \<Rightarrow> 's \<Rightarrow> 's" where
  "for_groups body entries st =
     foldl (\<lambda>s (key, files). if length files > 1 then for_members body files 1 s else s) st entries"

text \<open>
  The scanner on standard input: the lines it will read. \<open>Scan\<close> then \<open>Text\<close> give the next
  line, or the empty string at the end of the input. \<open>strings.ToLower\<close> is taken on ASCII
  letters; Go also maps the other Unicode letters, none of them to \<open>y\<close>, \<open>e\<close> or \<open>s\<close>.
\<close>

definition Scan :: "string list \<Rightarrow> string \<times> string list" where
  "Scan stdin = (case stdin of [] \<Rightarrow> ([], []) | l # ls \<Rightarrow> (l, ls))"

definition to_lower :: "char \<Rightarrow> char" where
  "to_lower c = (let n = of_char c :: nat in if 65 \<le> n \<and> n \<le> 90 then char_of (n + 32) else c)"

definition strings_ToLower :: "string \<Rightarrow> string" where
  "strings_ToLower s = map to_lower s"

definition moveFiles :: "'w os \<Rightarrow> string list \<Rightarrow> (string \<times> File list) list \<Rightarrow> 'w run \<Rightarrow> 'w run" where
  "moveFiles os stdin entries st =
     (let st0 = print ''Are you sure you want to move duplicated files? (yes/no): '' st;
          (answer, rest) = Scan stdin;
          confirmation = strings_ToLower answer in
      if confirmation \<noteq> ''yes'' then print ''Move operation canceled.'' st0
      else
        (let st1 = print ''Enter the destination path to move duplicated files: '' st0;
             (destination, rest') = Scan rest in
         for_groups (moveOne os destination) entries st1))"

definition deleteFiles :: "'w os \<Rightarrow> string list \<Rightarrow> (string \<times> File list) list \<Rightarrow> 'w run \<Rightarrow> 'w run" where
  "deleteFiles os stdin entries st =
     (let st0 = print ''Are you sure you want to delete duplicated files? (yes/no): '' st;
          (answer, rest) = Scan stdin;
          confirmation = strings_ToLower answer in
      if confirmation \<noteq> ''yes'' then print ''Deletion canceled.'' st0
      else for_groups (deleteOne os) entries st0)"

text \<open>
  A file system in memory, for concrete runs: a path holds a directory, a file with
  its bytes, or nothing. Creating over a directory fails; a file and a directory are
  never the same file.
\<close>

datatype node = DirNode | FileNode "byte list"

definition mem_os :: "(string \<Rightarrow> node option) os" where
  "mem_os =
     \<lparr>sys_Stat = (\<lambda>p w. case w p of
          None \<Rightarrow> Inl ''no such file or directory''
        | Some DirNode \<Rightarrow> Inr \<lparr>Mode = ModeDir, Size = 4096, Ident = 0\<rparr>
        | Some (FileNode d) \<Rightarrow> Inr \<lparr>Mode = ModeRegular, Size = of_nat (length d), Ident = Suc (length p)\<rparr>),
      sys_SameFile = (\<lambda>a b. Ident a = Ident b),
      sys_Rename = (\<lambda>s d w. case w s of
          None \<Rightarrow> (Some ''no such file or directory'', w)
        | Some n \<Rightarrow> (None, w(s := None, d := Some n))),
      sys_Remove = (\<lambda>p w. case w p of
          None \<Rightarrow> (Some ''no such file or directory'', w)
        | Some n \<Rightarrow> (None, w(p := None))),
      sys_Open = (\<lambda>p w. case w p of
          None \<Rightarrow> Some ''no such file or directory''
        | Some n \<Rightarrow> None),
      sys_Create = (\<lambda>p w. case w p of
          Some DirNode \<Rightarrow> (Some ''is a directory'', w)
        | _ \<Rightarrow> (None, w(p := Some (FileNode [])))),
      sys_Copy = (\<lambda>d s w. case w s of
          Some (FileNode bs) \<Rightarrow> (None, w(d := Some (FileNode bs)))
        | _ \<Rightarrow> (Some ''is a directory'', w)),
      filepath_Join = (\<lambda>d b. d @ ''/'' @ b),
      filepath_Base = (\<lambda>p. rev (takeWhile (\<lambda>c. c \<noteq> CHR ''/'') (rev p)))\<rparr>"

definition mem_world :: "string \<Rightarrow> node option" where
  "mem_world = (\<lambda>p. None)(''/dst'' := Some DirNode, ''/dst/b'' := Some DirNode,
      ''/a'' := Some (FileNode [1]), ''/x/b'' := Some (FileNode [1]), ''/x/c'' := Some (FileNode [1]),
      ''/u'' := Some (FileNode [2]))"

definition mem_map :: "(string \<times> File list) list" where
  "mem_map =
     [(''h2'', [\<lparr>File.Path = ''/u'', Hash = ''h2'', Size = 1\<rparr>]),
      (''h1'', [\<lparr>File.Path = ''/a'', Hash = ''h1'', Size = 1\<rparr>,
                \<lparr>File.Path = ''/x/b'', Hash = ''h1'', Size = 1\<rparr>,
                \<lparr>File.Path = ''/x/c'', Hash = ''h1'', Size = 1\<rparr>])]"

text \<open>
  The path a system call renames, copies from or removes; the members of the map at
  the indices \<open>1..n-1\<close> of their groups, and those at index \<open>0\<close>.
\<close>

fun acted_on :: "syscall \<Rightarrow> string list" where
  "acted_on (Rename source dest) = [source]"
| "acted_on (Remove p) = [p]"
| "acted_on (Open p) = [p]"
| "acted_on (Copy dest source) = [source]"
| "acted_on (Stat p) = []"
| "acted_on (Create p) = []"
| "acted_on (Close p) = []"

definition acted :: "syscall list \<Rightarrow> string list" where
  "acted cs = concat (map acted_on cs)"

definition duplicates :: "(string \<times> File list) list \<Rightarrow> File list" where
  "duplicates entries = concat (map (\<lambda>(key, files). drop 1 files) entries)"


definition file_b :: File where
  "file_b = \<lparr>File.Path = ''/x/b'', Hash = ''h1'', Size = 1\<rparr>"

section \<open>The size formatter: \<open>humanReadableSize\<close> (lines 53-64)\<close>

text \<open>
  The function computes on \<open>float64\<close>; every value it meets is a rational number, and the
  model computes with these exactly. \<open>float64(size)\<close> of an \<open>int64\<close> is the integer itself
  below \<open>2^53\<close> in magnitude, and otherwise the nearest multiple of the spacing of the
  doubles at that magnitude, a tie going to the even significand. A division by 1024 only
  lowers the exponent, so it is exact.
\<close>

function bit_length :: "int \<Rightarrow> nat" where
  "bit_length n = (if n \<le> 0 then 0 else Suc (bit_length (n div 2)))"
  by pat_completeness auto
termination
  by (relation "measure nat") auto

declare bit_length.simps [simp del]

definition float64 :: "int \<Rightarrow> rat" where
  "float64 n =
     (let a = \<bar>n\<bar> in
      if a < 2 ^ 53 then of_int n
      else
        (let e = bit_length a - 53;
             q = a div 2 ^ e;
             r = a mod 2 ^ e;
             q' = (if 2 * r > 2 ^ e \<or> (2 * r = 2 ^ e \<and> odd q) then q + 1 else q)
         in of_int (sgn n * (q' * 2 ^ e))))"

text \<open>The loop of lines 58-61, on the pair of \<open>newSize\<close> and \<open>unitIndex\<close>.\<close>

definition units :: "string list" where
  "units = [''B'', ''KB'', ''MB'', ''GB'', ''TB'']"

function scale :: "rat \<Rightarrow> nat \<Rightarrow> rat \<times> nat" where
  "scale newSize unitIndex =
     (if newSize \<ge> 1024 \<and> unitIndex < length units - 1
      then scale (newSize / 1024) (unitIndex + 1)
      else (newSize, unitIndex))"
  by pat_completeness auto
termination
  by (relation "measure (\<lambda>(newSize, unitIndex). length units - 1 - unitIndex)") auto

declare scale.simps [simp del]

text \<open>
  \<open>fmt.Sprintf("%.2f", x)\<close>: the decimal expansion of the exact value, rounded to two
  places, a tie going to the even digit; the sign, the integer part, a point, two digits.
\<close>

definition digit :: "int \<Rightarrow> char" where
  "digit n = ''0123456789'' ! nat (n mod 10)"

function decimal :: "int \<Rightarrow> string" where
  "decimal n = (if n < 10 then [digit n] else decimal (n div 10) @ [digit n])"
  by pat_completeness auto
termination
  by (relation "measure nat") auto

declare decimal.simps [simp del]

definition round_half_even :: "rat \<Rightarrow> int" where
  "round_half_even x =
     (let f = \<lfloor>x\<rfloor>; d = x - of_int f in
      if d < 1 / 2 then f
      else if d > 1 / 2 then f + 1
      else if even f then f else f + 1)"

definition sprintf_2f :: "rat \<Rightarrow> string" where
  "sprintf_2f x =
     (let n = round_half_even (\<bar>x\<bar> * 100) in
      (if x < 0 then ''-'' else '''') @ decimal (n div 100) @ ''.''
        @ [digit (n div 10), digit n])"

definition humanReadableSize :: "64 word \<Rightarrow> string" where
  "humanReadableSize sz =
     (case scale (float64 (sint sz)) 0 of
        (newSize, unitIndex) \<Rightarrow> sprintf_2f newSize @ '' '' @ units ! unitIndex)"

section \<open>Verification: the hasher and the governor\<close>

lemma calculateHash_wf: "task_ok ([], calculateHash env p)"
  by (simp add: task_ok_def calculateHash_def deferred_def split: sum.splits)

lemma filter_update_length:
  "i < length xs \<Longrightarrow>
   length (filter P (xs[i := y])) + (if P (xs ! i) then 1 else 0) =
   length (filter P xs) + (if P y then 1 else 0)"
proof (induction xs arbitrary: i)
  case Nil
  then show ?case by simp
next
  case (Cons x xs)
  then show ?case by (cases i) auto
qed

lemma wf_advance: "task_ok (d, a # r) \<Longrightarrow> task_ok (d @ [a], r)"
  by (simp add: task_ok_def)

lemma count_list_0_iff: "count_list xs x = 0 \<longleftrightarrow> x \<notin> set xs"
  by (induction xs) auto

lemma wf_acquire:
  assumes "task_ok (d, Acquire # r)"
  shows "\<not> midflight (d, Acquire # r)" "midflight (d @ [Acquire], r)"
proof -
  from assms have c: "count_list d Acquire = 0" and h: "hd (d @ Acquire # r) = Acquire"
    by (simp_all add: task_ok_def)
  from c have n: "Acquire \<notin> set d" by (simp add: count_list_0_iff)
  have "d = []"
  proof (cases d)
    case Nil then show ?thesis .
  next
    case (Cons x xs)
    with h have "x = Acquire" by simp
    with Cons n show ?thesis by simp
  qed
  then show "\<not> midflight (d, Acquire # r)" "midflight (d @ [Acquire], r)"
    by (simp_all add: midflight_def)
qed

lemma wf_release:
  assumes "task_ok (d, Release # r)"
  shows "midflight (d, Release # r)" "\<not> midflight (d @ [Release], r)"
proof -
  from assms have c: "count_list d Release = 0" and h: "hd (d @ Release # r) = Acquire"
    by (simp_all add: task_ok_def)
  from c have n: "Release \<notin> set d" by (simp add: count_list_0_iff)
  have "Acquire \<in> set d"
  proof (cases d)
    case Nil with h show ?thesis by simp
  next
    case (Cons x xs)
    with h show ?thesis by simp
  qed
  with n show "midflight (d, Release # r)" "\<not> midflight (d @ [Release], r)"
    by (simp_all add: midflight_def)
qed

lemma midflight_other:
  "a \<noteq> Acquire \<Longrightarrow> a \<noteq> Release \<Longrightarrow> midflight (d @ [a], r) = midflight (d, a # r)"
  by (auto simp: midflight_def)

lemma advance_tasks:
  "tasks s ! i = (d, a # r) \<Longrightarrow> tasks (advance s i) = (tasks s)[i := (d @ [a], r)]"
  by (simp add: advance_def)

lemma advance_fields: "slots (advance s i) = slots s" "crashed (advance s i) = crashed s"
  by (simp_all add: advance_def split: prod.splits)

lemma wf_tasks_update:
  "\<forall>t \<in> set xs. task_ok t \<Longrightarrow> task_ok y \<Longrightarrow> \<forall>t \<in> set (xs[i := y]). task_ok t"
  by (metis insert_iff set_update_subset_insert subsetD)

lemma step_inv:
  assumes "pool_inv C s"
  shows "pool_inv C (step C s i)"
proof (cases "crashed s \<or> length (tasks s) \<le> i")
  case True
  then show ?thesis using assms by (simp add: step_def)
next
  case False
  then have i: "i < length (tasks s)" and nc: "\<not> crashed s" by simp_all
  obtain d r where t: "tasks s ! i = (d, r)" by (cases "tasks s ! i")
  from assms i t have wft: "task_ok (d, r)" by (metis nth_mem pool_inv_def)
  from assms have wfs: "\<forall>t \<in> set (tasks s). task_ok t" and sl: "slots s = inflight s" and le: "slots s \<le> C"
    by (simp_all add: pool_inv_def)
  show ?thesis
  proof (cases r)
    case Nil
    then show ?thesis using assms False t by (simp add: step_def)
  next
    case (Cons a r')
    with wft have wf': "task_ok (d @ [a], r')" by (simp add: wf_advance)
    have tk: "tasks (advance s i) = (tasks s)[i := (d @ [a], r')]"
      using t Cons by (simp add: advance_tasks)
    have wfa: "\<forall>t \<in> set (tasks (advance s i)). task_ok t"
      unfolding tk using wfs wf' by (rule wf_tasks_update)
    have cnt: "length (filter midflight ((tasks s)[i := (d @ [a], r')])) + (if midflight (d, a # r') then 1 else 0) =
       length (filter midflight (tasks s)) + (if midflight (d @ [a], r') then 1 else 0)"
      using filter_update_length [OF i, of midflight "(d @ [a], r')"] t Cons by simp
    show ?thesis
    proof (cases "a = Acquire")
      case True
      with wft Cons have m: "\<not> midflight (d, a # r')" "midflight (d @ [a], r')"
        using wf_acquire by auto
      with cnt have "inflight (advance s i) = inflight s + 1"
        by (simp add: inflight_def tk)
      then show ?thesis using True Cons t False assms wfa sl le
        by (auto simp: step_def pool_inv_def inflight_def advance_fields)
    next
      case notA: False
      show ?thesis
      proof (cases "a = Release")
        case True
        with wft Cons have m: "midflight (d, a # r')" "\<not> midflight (d @ [a], r')"
          using wf_release by auto
        with cnt have "inflight (advance s i) + 1 = inflight s"
          by (simp add: inflight_def tk)
        then show ?thesis using True Cons t False assms wfa sl le
          by (auto simp: step_def pool_inv_def inflight_def advance_fields)
      next
        case notR: False
        with notA have "midflight (d @ [a], r') = midflight (d, a # r')"
          by (simp add: midflight_other)
        with cnt have "inflight (advance s i) = inflight s"
          by (simp add: inflight_def tk)
        then show ?thesis using notA notR Cons t False assms wfa sl le
          by (cases a) (auto simp: step_def pool_inv_def inflight_def advance_fields)
      qed
    qed
  qed
qed

lemma exec_inv: "pool_inv C s \<Longrightarrow> pool_inv C (exec C s sched)"
  unfolding exec_def by (induction sched arbitrary: s) (simp_all add: step_inv)

lemma spawn_inv: "pool_inv C (spawn env paths)"
  by (auto simp: pool_inv_def spawn_def inflight_def calculateHash_wf midflight_def)

lemma calculateHash_release_last:
  "filter hashing_op (dropWhile (\<lambda>a. a \<noteq> Release) (calculateHash env p)) = []"
  by (simp add: calculateHash_def deferred_def split: sum.splits)

text \<open>
  Claim C2. For every capacity \<open>C\<close>, every set of dispatched paths and every schedule, the
  number of goroutines between their acquisition and their release never exceeds \<open>C\<close>, and
  equals the number of elements in \<open>goroutineCh\<close>. On every path through \<open>calculateHash\<close>
  (open fails, read fails, stat fails, success) the goroutine starts with the acquisition,
  acquires once, releases once, and performs no system call of the hashing after the
  release.
\<close>

theorem governor_bounds_inflight:
  "inflight (exec C (spawn env paths) sched) \<le> C
   \<and> slots (exec C (spawn env paths) sched) = inflight (exec C (spawn env paths) sched)
   \<and> hd (calculateHash env p) = Acquire
   \<and> count_list (calculateHash env p) Acquire = 1
   \<and> count_list (calculateHash env p) Release = 1
   \<and> filter hashing_op (dropWhile (\<lambda>a. a \<noteq> Release) (calculateHash env p)) = []"
proof -
  have "pool_inv C (exec C (spawn env paths) sched)"
    by (rule exec_inv) (rule spawn_inv)
  then have "inflight (exec C (spawn env paths) sched) \<le> C"
    and "slots (exec C (spawn env paths) sched) = inflight (exec C (spawn env paths) sched)"
    by (simp_all add: pool_inv_def)
  moreover have "hd (calculateHash env p) = Acquire"
    and "count_list (calculateHash env p) Acquire = 1"
    and "count_list (calculateHash env p) Release = 1"
    using calculateHash_wf [of env p] by (simp_all add: task_ok_def Let_def)
  ultimately show ?thesis
    using calculateHash_release_last [of env p] by simp
qed

lemma calculateHash_message_count:
  "length (messages (calculateHash env p)) =
     (case os_Open env p of
        Inl e \<Rightarrow> 1
      | Inr h \<Rightarrow>
          (case io_Copy env h of
             Inl e \<Rightarrow> 1
           | Inr d \<Rightarrow> (case file_Stat env h of Inl e \<Rightarrow> 0 | Inr i \<Rightarrow> 1)))"
  by (simp add: calculateHash_def deferred_def split: sum.splits)

text \<open>
  Claim C3. When the file opens and is read and \<open>file.Stat\<close> then fails, the hasher emits
  no message at all: it panics on the nil \<open>FileInfo\<close> and the process dies.
\<close>

theorem calculateHash_stat_failure_emits_nothing:
  "messages (calculateHash stat_fails ''/mnt/nfs/a.bin'') = []
   \<and> last (calculateHash stat_fails ''/mnt/nfs/a.bin'') = Crash"
  by (simp add: calculateHash_def stat_fails_def deferred_def)

section \<open>Verification: the aggregator\<close>

lemma recv_commute: "recvErr e (recvFile f st) = recvFile f (recvErr e st)"
  by (simp add: recvErr_def recvFile_def)

lemma recvErr_foldl: "recvErr e (foldl (\<lambda>s f. recvFile f s) st fs) = foldl (\<lambda>s f. recvFile f s) (recvErr e st) fs"
  by (induction fs arbitrary: st) (simp_all add: recv_commute)

lemma drain_simps:
  "drain [] [] st = st"
  "drain (f # fs) es st = drain fs es (recvFile f st)"
  "drain fs (e # es) st = drain fs es (recvErr e st)"
  by (simp_all add: drain_def recvErr_foldl)

lemma ready_None: "ready None = False"
  by (simp add: ready_def)

lemma aggregate_blocked:
  "\<not> ready h \<Longrightarrow> \<not> ready e \<Longrightarrow> aggregate sched n h e st = Blocked st"
  by (subst aggregate.simps) simp

lemma aggregate_hash:
  assumes "ready (Some s)" "if ready e then sched n else True"
  shows "aggregate sched n (Some s) e st =
     (case pending s of
        [] \<Rightarrow> if e = None then Exited st else aggregate sched (n + 1) None e st
      | x # rest \<Rightarrow> aggregate sched (n + 1) (Some (s\<lparr>pending := rest\<rparr>)) e (recvFile x st))"
  using assms by (subst aggregate.simps) (auto simp: ready_None)

lemma aggregate_err:
  assumes "ready (Some s)" "\<not> (ready h \<and> (if ready (Some s) then sched n else True))"
  shows "aggregate sched n h (Some s) st =
     (case pending s of
        [] \<Rightarrow> if h = None then Exited st else aggregate sched (n + 1) h None st
      | x # rest \<Rightarrow> aggregate sched (n + 1) h (Some (s\<lparr>pending := rest\<rparr>)) (recvErr x st))"
  using assms by (subst aggregate.simps) (auto simp: ready_None)

lemma aggregate_both:
  "final (aggregate sched n h e st) = drain (pend h) (pend e) st
   \<and> exited (aggregate sched n h e st) = (will_close h \<and> will_close e \<and> (h \<noteq> None \<or> e \<noteq> None))"
proof (induction sched n h e st rule: aggregate.induct)
  case (1 sched n hashCh errCh st)
  show ?case
  proof (cases "\<not> ready hashCh \<and> \<not> ready errCh")
    case True
    then have "pend hashCh = []" "pend errCh = []"
      and "(\<not> will_close hashCh \<or> \<not> will_close errCh) \<or> (hashCh = None \<and> errCh = None)"
      by (auto simp: ready_def split: option.splits)
    with True show ?thesis
      by (auto simp: aggregate_blocked drain_simps)
  next
    case nb: False
    show ?thesis
    proof (cases "ready hashCh \<and> (if ready errCh then sched n else True)")
      case True
      then obtain s where s: "hashCh = Some s" by (auto simp: ready_def split: option.splits)
      from True s have r: "ready (Some s)" and c: "if ready errCh then sched n else True"
        by simp_all
      note eq = aggregate_hash [where s = s and e = errCh and sched = sched and n = n and st = st, OF r c]
      show ?thesis
      proof (cases "pending s")
        case Nil
        with r have cl: "closes s" by (simp add: ready_def)
        show ?thesis
        proof (cases "errCh = None")
          case en: True
          with s Nil cl eq show ?thesis
            by (simp add: drain_simps)
        next
          case False
          from "1.IH"(1) [OF nb True s Nil False] s Nil False cl eq show ?thesis
            by (auto simp: drain_simps)
        qed
      next
        case (Cons x rest)
        from "1.IH"(2) [OF nb True s Cons] s Cons eq show ?thesis
          by (simp add: drain_simps)
      qed
    next
      case False
      with nb have re: "ready errCh" by (auto split: if_splits)
      then obtain s where s: "errCh = Some s" by (auto simp: ready_def split: option.splits)
      from re s have r: "ready (Some s)" by simp
      from False s have c: "\<not> (ready hashCh \<and> (if ready (Some s) then sched n else True))"
        by simp
      note eq = aggregate_err [where s = s and h = hashCh and sched = sched and n = n and st = st, OF r c]
      show ?thesis
      proof (cases "pending s")
        case Nil
        with r have cl: "closes s" by (simp add: ready_def)
        show ?thesis
        proof (cases "hashCh = None")
          case True
          with s Nil cl eq show ?thesis
            by (simp add: drain_simps)
        next
          case hn: False
          from "1.IH"(3) [OF nb False s Nil hn] s Nil hn cl eq show ?thesis
            by (auto simp: drain_simps)
        qed
      next
        case (Cons x rest)
        from "1.IH"(4) [OF nb False s Cons] s Cons eq show ?thesis
          by (simp add: drain_simps)
      qed
    qed
  qed
qed

lemma aggregate_final: "final (aggregate sched n h e st) = drain (pend h) (pend e) st"
  by (simp add: aggregate_both)

lemma aggregate_exited:
  "exited (aggregate sched n h e st) = (will_close h \<and> will_close e \<and> (h \<noteq> None \<or> e \<noteq> None))"
  by (simp add: aggregate_both)

lemma drain_logged: "logged (drain fs es st) = logged st @ es"
proof -
  have a: "logged (foldl (\<lambda>s f. recvFile f s) st fs) = logged st" for st
    by (induction fs arbitrary: st) (simp_all add: recvFile_def)
  have b: "logged (foldl (\<lambda>s e. recvErr e s) st es) = logged st @ es" for st
    by (induction es arbitrary: st) (simp_all add: recvErr_def)
  show ?thesis by (simp add: drain_def a b)
qed

lemma drain_scanned: "scannedCount (drain fs es st) = scannedCount st + int (length fs)"
proof -
  have a: "scannedCount (foldl (\<lambda>s f. recvFile f s) st fs) = scannedCount st + int (length fs)" for st
    by (induction fs arbitrary: st) (simp_all add: recvFile_def)
  have b: "scannedCount (foldl (\<lambda>s e. recvErr e s) st es) = scannedCount st" for st
    by (induction es arbitrary: st) (simp_all add: recvErr_def)
  show ?thesis by (simp add: drain_def a b)
qed

text \<open>
  Claim C1. Started on two open channels, for every order in which the runtime picks the
  ready cases, the loop leaves exactly when both channels are closed. Whether it leaves
  or blocks, it has by then received every value of both channels (it keeps draining the
  one that is still open), and it has logged the failures received and nothing else: a
  closure adds no entry to the log.
\<close>

theorem aggregator_exits_iff_both_closed:
  "exited (aggregate sched 0 (Some \<lparr>pending = fs, closes = hc\<rparr>) (Some \<lparr>pending = es, closes = ec\<rparr>) st)
     = (hc \<and> ec)
   \<and> logged (final (aggregate sched 0 (Some \<lparr>pending = fs, closes = hc\<rparr>)
        (Some \<lparr>pending = es, closes = ec\<rparr>) st)) = logged st @ es
   \<and> scannedCount (final (aggregate sched 0 (Some \<lparr>pending = fs, closes = hc\<rparr>)
        (Some \<lparr>pending = es, closes = ec\<rparr>) st)) = scannedCount st + int (length fs)"
  by (simp add: aggregate_exited aggregate_final drain_logged drain_scanned)

section \<open>Verification: grouping by content\<close>

lemma hexdigit_inj: "a < 16 \<Longrightarrow> b < 16 \<Longrightarrow> hexdigit a = hexdigit b \<Longrightarrow> a = b"
proof -
  assume a: "a < 16" and b: "b < 16" and e: "hexdigit a = hexdigit b"
  have d: "distinct ''0123456789abcdef''" by simp
  have l: "length ''0123456789abcdef'' = 16" by simp
  from e a b have "''0123456789abcdef'' ! a = ''0123456789abcdef'' ! b"
    by (simp add: hexdigit_def)
  with d a b l show "a = b"
    by (metis nth_eq_iff_index_eq)
qed

lemma hex_byte_inj: "hex_byte a = hex_byte b \<Longrightarrow> a = b"
proof -
  assume "hex_byte a = hex_byte b"
  then have h: "hexdigit (unat a div 16) = hexdigit (unat b div 16)"
    and l: "hexdigit (unat a mod 16) = hexdigit (unat b mod 16)"
    by (simp_all add: hex_byte_def)
  have ua: "unat a < 256" using unsigned_less [of a] by simp
  have ub: "unat b < 256" using unsigned_less [of b] by simp
  from ua ub have "unat a div 16 < 16" "unat b div 16 < 16" by simp_all
  with h have 1: "unat a div 16 = unat b div 16" by (metis hexdigit_inj)
  have "unat a mod 16 < 16" "unat b mod 16 < 16" by simp_all
  with l have 2: "unat a mod 16 = unat b mod 16" by (metis hexdigit_inj)
  from 1 2 have "unat a = unat b" by (metis div_mult_mod_eq)
  then show "a = b" by (simp add: word_unat_eq_iff)
qed

lemma hex_inj: "hex xs = hex ys \<Longrightarrow> xs = ys"
proof (induction xs arbitrary: ys)
  case Nil
  then show ?case by (cases ys) (simp_all add: hex_def hex_byte_def)
next
  case (Cons x xs)
  show ?case
  proof (cases ys)
    case Nil
    with Cons.prems show ?thesis by (simp add: hex_def hex_byte_def)
  next
    case (Cons y ys')
    with Cons.prems have "hex_byte x @ hex xs = hex_byte y @ hex ys'"
      by (simp add: hex_def)
    moreover have "length (hex_byte x) = length (hex_byte y)" by (simp add: hex_byte_def)
    ultimately have "hex_byte x = hex_byte y" "hex xs = hex ys'" by simp_all
    with Cons.IH Cons show ?thesis by (simp add: hex_byte_inj)
  qed
qed

lemma fileMap_recvErrs: "fileMap (foldl (\<lambda>s e. recvErr e s) st es) = fileMap st"
  by (induction es arbitrary: st) (simp_all add: recvErr_def)

lemma fileMap_recvFiles:
  "fileMap (foldl (\<lambda>s f. recvFile f s) st fs) k =
     (if filter (\<lambda>f. Hash f = k) fs = [] then fileMap st k
      else Some ((case fileMap st k of None \<Rightarrow> [] | Some g \<Rightarrow> g) @ filter (\<lambda>f. Hash f = k) fs))"
  by (induction fs arbitrary: st) (auto simp: recvFile_def)

lemma fileMap_drain:
  "fileMap (drain fs es main_init) k =
     (if filter (\<lambda>f. Hash f = k) fs = [] then None else Some (filter (\<lambda>f. Hash f = k) fs))"
  by (simp add: drain_def fileMap_recvErrs fileMap_recvFiles main_init_def)

lemma calculateHash_record:
  assumes "messages (calculateHash env p) = [Inr f]"
  shows "File.Path f = p" "Hash f = digest env p" "content env p \<noteq> None"
  using assms
  by (auto simp: calculateHash_def deferred_def digest_def content_def split: sum.splits)

lemma digest_eq_iff:
  assumes inj: "inj_on (md5_Sum env) {d. \<exists>p \<in> set paths. content env p = Some d}"
    and p: "p \<in> set paths" "content env p \<noteq> None"
    and q: "q \<in> set paths" "content env q \<noteq> None"
  shows "digest env q = digest env p \<longleftrightarrow> content env q = content env p"
proof
  assume e: "digest env q = digest env p"
  from p q obtain dp dq where d: "content env p = Some dp" "content env q = Some dq" by auto
  with e have "md5_Sum env dq = md5_Sum env dp"
    by (simp add: digest_def hex_inj)
  moreover from d p q have "dp \<in> {d. \<exists>p \<in> set paths. content env p = Some d}"
    "dq \<in> {d. \<exists>p \<in> set paths. content env p = Some d}" by auto
  ultimately have "dq = dp" using inj by (meson inj_onD)
  with d show "content env q = content env p" by simp
next
  assume "content env q = content env p"
  then show "digest env q = digest env p" by (simp add: digest_def)
qed

text \<open>
  Claim C4. Let every path of the input hash successfully (its only message is a
  \<open>File\<close> record), let the records arrive in any order, let the runtime pick the ready
  cases in any order, and let the digest have no collision on the contents read. Then for
  every input path \<open>p\<close> the finished map holds, under the digest of \<open>p\<close>'s content, a group
  whose members are exactly the input paths with the same content as \<open>p\<close>, as many as
  there are; and another input path has the same digest exactly when it has the same
  content.
\<close>

theorem duplicates_grouped_by_content:
  assumes ok: "\<forall>p \<in> set paths. \<exists>f. messages (calculateHash env p) = [Inr f]"
    and arr: "mset (map Inr arrival) = mset (concat (map (\<lambda>p. messages (calculateHash env p)) paths))"
    and inj: "inj_on (md5_Sum env) {d. \<exists>p \<in> set paths. content env p = Some d}"
    and p: "p \<in> set paths" and q: "q \<in> set paths"
  shows "(\<exists>g. fileMap (final (aggregate sched 0 (Some \<lparr>pending = arrival, closes = True\<rparr>)
                 (Some \<lparr>pending = [], closes = True\<rparr>) main_init)) (digest env p) = Some g
            \<and> mset (map File.Path g) = mset (filter (\<lambda>r. content env r = content env p) paths)
            \<and> length g = length (filter (\<lambda>r. content env r = content env p) paths))
         \<and> (digest env q = digest env p) = (content env q = content env p)"
proof -
  from ok obtain rec where rec: "\<forall>p \<in> set paths. messages (calculateHash env p) = [Inr (rec p)]"
    by metis
  have facts: "File.Path (rec r) = r" "Hash (rec r) = digest env r" "content env r \<noteq> None"
    if "r \<in> set paths" for r
    using rec that calculateHash_record [of env r "rec r"] by auto
  have "concat (map (\<lambda>p. messages (calculateHash env p)) paths) = concat (map (\<lambda>p. [Inr (rec p)]) paths)"
    using rec by (intro arg_cong [where f = concat] map_cong) auto
  also have "\<dots> = map Inr (map rec paths)"
    by (simp add: concat_map_singleton)
  finally have cm: "concat (map (\<lambda>p. messages (calculateHash env p)) paths) = map Inr (map rec paths)" .
  have "mset (map (Inr :: File \<Rightarrow> HashError + File) arrival) = mset (map Inr (map rec paths))"
    using arr unfolding cm .
  then have "image_mset (Inr :: File \<Rightarrow> HashError + File) (mset arrival) = image_mset Inr (mset (map rec paths))"
    by (simp only: mset_map)
  then have ma: "mset arrival = mset (map rec paths)"
    by (rule multiset.inj_map_strong [rotated]) simp
  let ?k = "digest env p"
  let ?g = "filter (\<lambda>f. Hash f = ?k) arrival"
  have deq: "(digest env r = ?k) = (content env r = content env p)" if "r \<in> set paths" for r
    using digest_eq_iff [OF inj p _ that] facts(3) [OF p] facts(3) [OF that] by simp
  have "mset (map File.Path ?g) = image_mset File.Path (filter_mset (\<lambda>f. Hash f = ?k) (mset arrival))"
    by simp
  also have "\<dots> = image_mset File.Path (filter_mset (\<lambda>f. Hash f = ?k) (image_mset rec (mset paths)))"
    by (simp add: ma)
  also have "\<dots> = image_mset (\<lambda>r. File.Path (rec r)) (filter_mset (\<lambda>r. Hash (rec r) = ?k) (mset paths))"
    by (simp add: filter_mset_image_mset multiset.map_comp comp_def)
  also have "\<dots> = image_mset (\<lambda>r. r) (filter_mset (\<lambda>r. Hash (rec r) = ?k) (mset paths))"
    by (rule image_mset_cong) (simp add: facts)
  also have "\<dots> = filter_mset (\<lambda>r. content env r = content env p) (mset paths)"
  proof -
    have "filter_mset (\<lambda>r. Hash (rec r) = ?k) (mset paths)
        = filter_mset (\<lambda>r. content env r = content env p) (mset paths)"
      by (rule filter_mset_cong) (simp_all add: facts deq)
    then show ?thesis by simp
  qed
  finally have paths_g: "mset (map File.Path ?g) = mset (filter (\<lambda>r. content env r = content env p) paths)"
    by simp
  then have len: "length ?g = length (filter (\<lambda>r. content env r = content env p) paths)"
    by (metis length_map size_mset)
  from p have "filter (\<lambda>r. content env r = content env p) paths \<noteq> []"
    by (auto simp: filter_empty_conv)
  with len have ne: "?g \<noteq> []" by auto
  have "fileMap (final (aggregate sched 0 (Some \<lparr>pending = arrival, closes = True\<rparr>)
                 (Some \<lparr>pending = [], closes = True\<rparr>) main_init)) ?k = Some ?g"
    using ne by (simp add: aggregate_final fileMap_drain)
  with paths_g len deq [OF q] show ?thesis by simp
qed

lemma demo_messages: "messages (calculateHash demo_reader p) = [Inr (demo_record p)]"
  by (simp add: calculateHash_def demo_reader_def deferred_def demo_record_def digest_def content_def)

lemma demo_content: "content demo_reader p = Some (if length p = 1 then [0x41] else [0x42])"
  by (simp add: content_def demo_reader_def)

theorem duplicates_grouped_witness:
  "(\<exists>g. fileMap (final (aggregate (\<lambda>n. True) 0
            (Some \<lparr>pending = [demo_record ''cc'', demo_record ''b'', demo_record ''a''], closes = True\<rparr>)
            (Some \<lparr>pending = [], closes = True\<rparr>) main_init)) (digest demo_reader ''a'') = Some g
        \<and> mset (map File.Path g) = mset [''a'', ''b''] \<and> length g = 2)
   \<and> digest demo_reader ''cc'' \<noteq> digest demo_reader ''a''"
proof -
  have ok: "\<forall>p \<in> set [''a'', ''b'', ''cc'']. \<exists>f. messages (calculateHash demo_reader p) = [Inr f]"
    by (simp add: demo_messages)
  have arr: "mset (map Inr [demo_record ''cc'', demo_record ''b'', demo_record ''a''])
      = mset (concat (map (\<lambda>p. messages (calculateHash demo_reader p)) [''a'', ''b'', ''cc'']))"
    by (simp add: demo_messages)
  have inj: "inj_on (md5_Sum demo_reader) {d. \<exists>p \<in> set [''a'', ''b'', ''cc'']. content demo_reader p = Some d}"
    by (simp add: demo_reader_def inj_on_def)
  have p: "''a'' \<in> set [''a'', ''b'', ''cc'']" and q: "''cc'' \<in> set [''a'', ''b'', ''cc'']"
    by simp_all
  from duplicates_grouped_by_content [OF ok arr inj p q, of "\<lambda>n. True"]
  show ?thesis by (simp add: demo_content numeral_2_eq_2)
qed

section \<open>Verification: walk and dispatch\<close>

lemma Walk_dispatched:
  "snd (Walk vs st) =
     st\<lparr>dispatched := dispatched st @ map visit_path (filter hashable (takeWhile (\<lambda>v. \<not> failed v) vs)),
        fileCount := fileCount st + int (length (filter hashable (takeWhile (\<lambda>v. \<not> failed v) vs)))\<rparr>"
proof (induction vs arbitrary: st)
  case Nil
  then show ?case by simp
next
  case (Cons v vs)
  then show ?case by (cases v) (simp_all add: walkFn_def)
qed

lemma Walk_error: "fst (Walk vs st) = first_error vs"
proof (induction vs arbitrary: st)
  case Nil
  then show ?case by simp
next
  case (Cons v vs)
  then show ?case by (cases v) (simp_all add: walkFn_def)
qed

lemma first_error_None: "first_error vs = None \<Longrightarrow> takeWhile (\<lambda>v. \<not> failed v) vs = vs"
proof (induction vs)
  case Nil
  then show ?case by simp
next
  case (Cons v vs)
  then show ?case by (cases v) simp_all
qed

lemma first_error_failed: "(first_error vs = None) = (filter failed vs = [])"
proof (induction vs)
  case Nil
  then show ?case by simp
next
  case (Cons v vs)
  then show ?case by (cases v) simp_all
qed

text \<open>
  Claim C6, amended. The callback starts exactly one hashing task for an entry, and
  increments \<open>fileCount\<close>, exactly when the entry is visited without error and is not a
  directory; a directory and a visit with an error start nothing. Over a walk, the tasks
  started are those of the non-directory entries visited before the first error, in
  order, and \<open>fileCount\<close> grows by their number.
\<close>

theorem walk_dispatches_non_directories:
  "dispatched (snd (Walk vs st)) =
     dispatched st @ map visit_path (filter hashable (takeWhile (\<lambda>v. \<not> failed v) vs))
   \<and> fileCount (snd (Walk vs st)) =
     fileCount st + int (length (filter hashable (takeWhile (\<lambda>v. \<not> failed v) vs)))
   \<and> walkFn (Entry path info) st =
     (None, if IsDir info then st
            else st\<lparr>dispatched := dispatched st @ [path], fileCount := fileCount st + 1\<rparr>)
   \<and> walkFn (Failed path fi err) st = (Some err, st)"
  by (simp add: Walk_dispatched walkFn_def)

text \<open>
  Claim C6 as stated fails: a symbolic link is not a regular file, and the callback
  starts a hashing task for it and counts it.
\<close>

theorem symlink_is_dispatched:
  "\<not> IsRegular link_info
   \<and> dispatched (snd (walkFn (Entry ''/r/link'' link_info) walk_init)) = [''/r/link'']
   \<and> fileCount (snd (walkFn (Entry ''/r/link'' link_info) walk_init)) = 1"
  by (simp add: walkFn_def link_info_def IsDir_def IsRegular_def walk_init_def)

text \<open>
  Claim C5 as stated fails: the root is visited without error, a subdirectory cannot
  be listed, and the whole scan ends with a fatal error.
\<close>

theorem subdirectory_error_aborts_scan:
  "scan [Entry ''/r'' dir_info, Entry ''/r/a.txt'' reg_info,
         Failed ''/r/sub'' (Some dir_info) ''open /r/sub: permission denied'',
         Entry ''/r/z.txt'' reg_info]
     = Fatal ''open /r/sub: permission denied''"
  by (simp add: scan_def walkFn_def dir_info_def reg_info_def IsDir_def walk_init_def)

text \<open>
  Claim C5, amended. The scan ends with a fatal error exactly when the library reports
  an error to the callback at some visit, the root or any entry below it, and the fatal
  error is the first one reported; a walk without such a visit runs to its end and starts
  a task for every non-directory entry. A file that cannot be opened or read when it is
  hashed yields one \<open>HashError\<close> message with the path and the cause.
\<close>

theorem scan_aborts_on_first_reported_error:
  "scan vs =
     (case first_error vs of
        Some err \<Rightarrow> Fatal err
      | None \<Rightarrow> Scanned \<lparr>dispatched = map visit_path (filter hashable vs),
                          fileCount = int (length (filter hashable vs))\<rparr>)
   \<and> (first_error vs = None) = (filter failed vs = [])
   \<and> messages (calculateHash (env\<lparr>os_Open := \<lambda>p. Inl err\<rparr>) filePath)
       = [Inl \<lparr>HashError.Path = filePath, Err = err\<rparr>]
   \<and> messages (calculateHash (env\<lparr>os_Open := \<lambda>p. Inr h, io_Copy := \<lambda>h. Inl err\<rparr>) filePath)
       = [Inl \<lparr>HashError.Path = filePath, Err = err\<rparr>]"
proof -
  have "scan vs =
     (case first_error vs of
        Some err \<Rightarrow> Fatal err
      | None \<Rightarrow> Scanned \<lparr>dispatched = map visit_path (filter hashable vs),
                          fileCount = int (length (filter hashable vs))\<rparr>)"
  proof (cases "first_error vs")
    case None
    then show ?thesis
      using Walk_error [of vs walk_init] Walk_dispatched [of vs walk_init] first_error_None [OF None]
      by (cases "Walk vs walk_init") (simp add: scan_def walk_init_def)
  next
    case (Some err)
    then show ?thesis
      using Walk_error [of vs walk_init]
      by (cases "Walk vs walk_init") (simp add: scan_def)
  qed
  then show ?thesis
    by (simp add: calculateHash_def deferred_def first_error_failed)
qed

section \<open>Verification: the action handlers\<close>

lemma for_members_foldl: "for_members body files i st = foldl (\<lambda>s f. body f s) st (drop i files)"
proof (induction body files i st rule: for_members.induct)
  case (1 body files i st)
  show ?case
  proof (cases "i < length files")
    case True
    then have "drop i files = files ! i # drop (Suc i) files"
      by (simp add: Cons_nth_drop_Suc)
    with True "1.IH" show ?thesis
      by (subst for_members.simps) simp
  next
    case False
    then show ?thesis by (subst for_members.simps) simp
  qed
qed

lemma for_groups_foldl: "for_groups body entries st = foldl (\<lambda>s f. body f s) st (duplicates entries)"
proof (induction entries arbitrary: st)
  case Nil
  then show ?case by (simp add: for_groups_def duplicates_def)
next
  case (Cons e entries)
  obtain key files where e: "e = (key, files)" by (cases e)
  have "\<not> 1 < length files \<Longrightarrow> drop 1 files = []" by simp
  with Cons [unfolded for_groups_def] e show ?case
    by (auto simp: for_groups_def duplicates_def for_members_foldl)
qed

lemma copyFile_calls:
  "\<exists>cs. calls (snd (copyFile os src dest st)) = calls st @ cs \<and> set (acted cs) \<subseteq> {src}
        \<and> Remove src \<notin> set cs \<and> (\<forall>d. Rename src d \<notin> set cs)"
  by (auto simp: copyFile_def call_def acted_def Let_def split: option.splits prod.splits)

lemma moveOne_calls:
  "\<exists>cs. calls (moveOne os destination f st) = calls st @ cs \<and> set (acted cs) \<subseteq> {File.Path f}
        \<and> Stat (File.Path f) \<in> set cs"
proof -
  obtain cs where cs: "calls (snd (copyFile os (File.Path f)
       (filepath_Join os destination (filepath_Base os (File.Path f)))
       (call (Stat destination) (call (Stat (File.Path f)) st))))
     = calls (call (Stat destination) (call (Stat (File.Path f)) st)) @ cs"
     "set (acted cs) \<subseteq> {File.Path f}"
    using copyFile_calls by blast
  then show ?thesis
    by (auto simp: moveOne_def call_def acted_def Let_def log_Printf_def print_def
        split: sum.splits option.splits prod.splits)
qed





lemma print_fields: "calls (print s st) = calls st" "world (print s st) = world st"
  by (simp_all add: print_def)


lemma moveFiles_canceled:
  "strings_ToLower (fst (Scan stdin)) \<noteq> ''yes'' \<Longrightarrow>
   moveFiles os stdin entries st =
     print ''Move operation canceled.''
       (print ''Are you sure you want to move duplicated files? (yes/no): '' st)"
  by (cases "Scan stdin") (simp add: moveFiles_def Let_def)


lemma deleteFiles_canceled:
  "strings_ToLower (fst (Scan stdin)) \<noteq> ''yes'' \<Longrightarrow>
   deleteFiles os stdin entries st =
     print ''Deletion canceled.''
       (print ''Are you sure you want to delete duplicated files? (yes/no): '' st)"
  by (cases "Scan stdin") (simp add: deleteFiles_def Let_def)




text \<open>
  Claim C10. When the answer read at the prompt, in lower case, is not \<open>yes\<close> (also when
  the input has ended), \<open>moveFiles\<close> and \<open>deleteFiles\<close> issue no system call and leave
  the world as it was.
\<close>

theorem unconfirmed_is_noop:
  assumes "strings_ToLower (fst (Scan stdin)) \<noteq> ''yes''"
  shows "world (moveFiles os stdin entries st) = world st
       \<and> calls (moveFiles os stdin entries st) = calls st
       \<and> world (deleteFiles os stdin entries st) = world st
       \<and> calls (deleteFiles os stdin entries st) = calls st"
  using assms by (simp add: moveFiles_canceled deleteFiles_canceled print_fields)

lemma foldl_moveOne_prefix:
  "\<exists>cs. calls (foldl (\<lambda>s f. moveOne os d f s) st fs) = calls st @ cs"
proof (induction fs arbitrary: st)
  case Nil
  then show ?case by simp
next
  case (Cons f fs)
  from moveOne_calls [of os d f st] Cons [of "moveOne os d f st"] show ?case by auto
qed

lemma foldl_moveOne_attempts:
  "f \<in> set fs \<Longrightarrow> Stat (File.Path f) \<in> set (calls (foldl (\<lambda>s f. moveOne os d f s) st fs))"
proof (induction fs arbitrary: st)
  case Nil
  then show ?case by simp
next
  case (Cons g fs)
  show ?case
  proof (cases "f = g")
    case True
    from moveOne_calls [of os d g st] obtain c1 where
      "calls (moveOne os d g st) = calls st @ c1" "Stat (File.Path g) \<in> set c1" by blast
    moreover from foldl_moveOne_prefix [of os d "moveOne os d g st" fs] obtain c2 where
      "calls (foldl (\<lambda>s f. moveOne os d f s) (moveOne os d g st) fs) = calls (moveOne os d g st) @ c2"
      by blast
    ultimately show ?thesis using True by simp
  next
    case False
    with Cons.prems have "f \<in> set fs" by simp
    from Cons.IH [OF this] show ?thesis by simp
  qed
qed

text \<open>
  Claim C8. On the path taken when \<open>os.SameFile\<close> is false, if \<open>copyFile\<close> returns an
  error for a member, the body logs the failure and ends there: it issues no \<open>os.Remove\<close>
  of the source. The loops run the body for every member at an index \<open>1..n-1\<close> of every
  group, in order, whatever the earlier bodies met: each of them reaches its first call,
  \<open>os.Stat\<close> of the source.
\<close>

theorem copy_failure_keeps_source:
  assumes src: "sys_Stat os (File.Path f) (world st) = Inr srcFileInfo"
    and dst: "sys_Stat os destination (world st) = Inr dstFileInfo"
    and cross: "\<not> sys_SameFile os srcFileInfo dstFileInfo"
    and fails: "copyFile os (File.Path f)
        (filepath_Join os destination (filepath_Base os (File.Path f)))
        (call (Stat destination) (call (Stat (File.Path f)) st)) = (Some err, st')"
  shows "moveOne os destination f st =
           log_Printf (''Error copying file '' @ File.Path f @ '' to ''
             @ filepath_Join os destination (filepath_Base os (File.Path f)) @ '': '' @ err) st'
       \<and> Remove (File.Path f) \<notin> set (drop (length (calls st)) (calls (moveOne os destination f st)))
       \<and> for_groups (moveOne os destination) entries st
           = foldl (\<lambda>s g. moveOne os destination g s) st (duplicates entries)
       \<and> (\<forall>g \<in> set (duplicates entries).
             Stat (File.Path g) \<in> set (calls (for_groups (moveOne os destination) entries st)))"
proof -
  let ?dest = "filepath_Join os destination (filepath_Base os (File.Path f))"
  let ?st2 = "call (Stat destination) (call (Stat (File.Path f)) st)"
  have w: "world ?st2 = world st" "world (call (Stat (File.Path f)) st) = world st"
    by (simp_all add: call_def)
  have m: "moveOne os destination f st =
      log_Printf (''Error copying file '' @ File.Path f @ '' to '' @ ?dest @ '': '' @ err) st'"
    using src dst cross fails by (simp add: moveOne_def Let_def w)
  from copyFile_calls [of os "File.Path f" ?dest ?st2] fails obtain cs where
    cs: "calls st' = calls ?st2 @ cs" "Remove (File.Path f) \<notin> set cs" by auto
  have "calls (moveOne os destination f st) = calls st @ ([Stat (File.Path f), Stat destination] @ cs)"
    using cs(1) by (simp add: m log_Printf_def call_def)
  then have "drop (length (calls st)) (calls (moveOne os destination f st))
      = [Stat (File.Path f), Stat destination] @ cs" by simp
  with cs(2) have r: "Remove (File.Path f) \<notin> set (drop (length (calls st)) (calls (moveOne os destination f st)))"
    by simp
  show ?thesis
    using m r by (simp add: for_groups_foldl foldl_moveOne_attempts)
qed


theorem unconfirmed_is_noop_witness:
  "world (moveFiles mem_os [''No''] mem_map (start mem_world)) = mem_world
   \<and> calls (moveFiles mem_os [''No''] mem_map (start mem_world)) = []
   \<and> world (deleteFiles mem_os [] mem_map (start mem_world)) = mem_world
   \<and> calls (deleteFiles mem_os [] mem_map (start mem_world)) = []"
proof -
  have a: "strings_ToLower (fst (Scan [''No''])) \<noteq> ''yes''"
    by (simp add: Scan_def strings_ToLower_def)
  have b: "strings_ToLower (fst (Scan [])) \<noteq> ''yes''"
    by (simp add: Scan_def strings_ToLower_def)
  from unconfirmed_is_noop [OF a, of mem_os mem_map "start mem_world"]
    unconfirmed_is_noop [OF b, of mem_os mem_map "start mem_world"]
  show ?thesis by (simp add: start_def)
qed

theorem copy_failure_keeps_source_witness:
  "moveOne mem_os ''/dst'' file_b (start mem_world) =
     \<lparr>world = mem_world,
      calls = [Stat ''/x/b'', Stat ''/dst'', Open ''/x/b'', Create ''/dst/b'', Close ''/x/b''],
      stdout = [],
      stderr = [''Error copying file /x/b to /dst/b: is a directory'']\<rparr>
   \<and> Remove ''/x/b'' \<notin> set (calls (moveOne mem_os ''/dst'' file_b (start mem_world)))
   \<and> Stat ''/x/c'' \<in> set (calls (for_groups (moveOne mem_os ''/dst'') mem_map (start mem_world)))"
proof -
  have src: "sys_Stat mem_os (File.Path file_b) (world (start mem_world))
      = Inr \<lparr>Mode = ModeRegular, Size = 1, Ident = 5\<rparr>"
    by (simp add: mem_os_def mem_world_def start_def file_b_def)
  have dst: "sys_Stat mem_os ''/dst'' (world (start mem_world))
      = Inr \<lparr>Mode = ModeDir, Size = 4096, Ident = 0\<rparr>"
    by (simp add: mem_os_def mem_world_def start_def)
  have cross: "\<not> sys_SameFile mem_os \<lparr>Mode = ModeRegular, Size = 1, Ident = 5\<rparr>
      \<lparr>Mode = ModeDir, Size = 4096, Ident = 0\<rparr>"
    by (simp add: mem_os_def)
  have fails: "copyFile mem_os (File.Path file_b)
      (filepath_Join mem_os ''/dst'' (filepath_Base mem_os (File.Path file_b)))
      (call (Stat ''/dst'') (call (Stat (File.Path file_b)) (start mem_world)))
    = (Some ''is a directory'',
       \<lparr>world = mem_world,
        calls = [Stat ''/x/b'', Stat ''/dst'', Open ''/x/b'', Create ''/dst/b'', Close ''/x/b''],
        stdout = [], stderr = []\<rparr>)"
    by (simp add: copyFile_def mem_os_def mem_world_def start_def file_b_def call_def Let_def)
  have dup: "\<lparr>File.Path = ''/x/c'', Hash = ''h1'', Size = 1\<rparr> \<in> set (duplicates mem_map)"
    by (simp add: duplicates_def mem_map_def)
  have j: "filepath_Join mem_os ''/dst'' (filepath_Base mem_os (File.Path file_b)) = ''/dst/b''"
    by (simp add: mem_os_def file_b_def)
  from copy_failure_keeps_source [OF src dst cross fails, of mem_map] dup j
  show ?thesis
    by (auto simp: log_Printf_def start_def file_b_def)
qed

section \<open>Verification: the size formatter\<close>

lemma humanReadableSize_1024: "humanReadableSize 1024 = ''1.00 KB''"
  by code_simp
lemma humanReadableSize_MB: "humanReadableSize 1048576 = ''1.00 MB''"
  by code_simp
lemma humanReadableSize_0: "humanReadableSize 0 = ''0.00 B''"
  by code_simp
lemma humanReadableSize_GB: "humanReadableSize 1073741824 = ''1.00 GB''"
  by code_simp
lemma humanReadableSize_TB: "humanReadableSize 1099511627776 = ''1.00 TB''"
  by code_simp

lemma scale_spec:
  "k \<le> 4 \<Longrightarrow> k = 0 \<or> 1 \<le> x \<Longrightarrow>
   \<exists>j. j \<le> 4 \<and> k \<le> j \<and> scale x k = (x / 1024 ^ (j - k), j)
     \<and> (j = 4 \<or> x / 1024 ^ (j - k) < 1024) \<and> (j = 0 \<or> 1 \<le> x / 1024 ^ (j - k))"
proof (induction x k rule: scale.induct)
  case (1 newSize unitIndex)
  show ?case
  proof (cases "newSize \<ge> 1024 \<and> unitIndex < length units - 1")
    case True
    then have k: "unitIndex + 1 \<le> 4" and ge: "1 \<le> newSize / 1024"
      by (simp_all add: units_def)
    from "1.IH" [OF True k] ge obtain j where
      j: "j \<le> 4" "unitIndex + 1 \<le> j"
        "scale (newSize / 1024) (unitIndex + 1) = (newSize / 1024 / 1024 ^ (j - (unitIndex + 1)), j)"
        "j = 4 \<or> newSize / 1024 / 1024 ^ (j - (unitIndex + 1)) < 1024"
        "j = 0 \<or> 1 \<le> newSize / 1024 / 1024 ^ (j - (unitIndex + 1))"
      by auto
    from j(2) have "j - unitIndex = Suc (j - (unitIndex + 1))" by simp
    then have e: "newSize / 1024 / 1024 ^ (j - (unitIndex + 1)) = newSize / 1024 ^ (j - unitIndex)"
      by simp
    have "scale newSize unitIndex = scale (newSize / 1024) (unitIndex + 1)"
      using True by (subst scale.simps) simp
    with j(3) have s: "scale newSize unitIndex = (newSize / 1024 ^ (j - unitIndex), j)"
      unfolding e by simp
    from j(2) have le: "unitIndex \<le> j" by simp
    from j(4) have a: "j = 4 \<or> newSize / 1024 ^ (j - unitIndex) < 1024" unfolding e .
    from j(5) have b: "j = 0 \<or> 1 \<le> newSize / 1024 ^ (j - unitIndex)" unfolding e .
    from j(1) le s a b show ?thesis
      by blast
  next
    case False
    then have s: "scale newSize unitIndex = (newSize, unitIndex)"
      by (subst scale.simps) auto
    from False "1.prems" have "unitIndex = 4 \<or> newSize < 1024"
      by (auto simp: units_def)
    with s "1.prems" show ?thesis
      by (intro exI [of _ unitIndex]) auto
  qed
qed

text \<open>
  Claim C9. 1024 bytes print as \<open>1.00 KB\<close>, 1048576 as \<open>1.00 MB\<close>, 0 as \<open>0.00 B\<close>
  (and \<open>2^30\<close>, \<open>2^40\<close> as \<open>1.00 GB\<close>, \<open>1.00 TB\<close>). For every 64-bit size the output is the
  value divided by \<open>1024^j\<close>, printed with two decimal places, a space and the \<open>j\<close>-th of the
  units B, KB, MB, GB, TB, where \<open>j\<close> is such that the printed value is below 1024 unless the
  unit is TB, and at least 1 unless the unit is B.
\<close>

theorem humanReadableSize_scales_by_1024:
  "humanReadableSize 1024 = ''1.00 KB''
   \<and> humanReadableSize 1048576 = ''1.00 MB''
   \<and> humanReadableSize 0 = ''0.00 B''
   \<and> humanReadableSize 1073741824 = ''1.00 GB''
   \<and> humanReadableSize 1099511627776 = ''1.00 TB''
   \<and> (\<exists>j. j \<le> 4
         \<and> humanReadableSize sz = sprintf_2f (float64 (sint sz) / 1024 ^ j) @ '' '' @ units ! j
         \<and> (j = 4 \<or> float64 (sint sz) / 1024 ^ j < 1024)
         \<and> (j = 0 \<or> 1 \<le> float64 (sint sz) / 1024 ^ j))
   \<and> units = [''B'', ''KB'', ''MB'', ''GB'', ''TB'']"
proof -
  from scale_spec [of 0 "float64 (sint sz)"] obtain j where
    "j \<le> 4" "scale (float64 (sint sz)) 0 = (float64 (sint sz) / 1024 ^ j, j)"
    "j = 4 \<or> float64 (sint sz) / 1024 ^ j < 1024" "j = 0 \<or> 1 \<le> float64 (sint sz) / 1024 ^ j"
    by auto
  then have "\<exists>j. j \<le> 4
         \<and> humanReadableSize sz = sprintf_2f (float64 (sint sz) / 1024 ^ j) @ '' '' @ units ! j
         \<and> (j = 4 \<or> float64 (sint sz) / 1024 ^ j < 1024)
         \<and> (j = 0 \<or> 1 \<le> float64 (sint sz) / 1024 ^ j)"
    by (intro exI [of _ j]) (simp add: humanReadableSize_def)
  then show ?thesis
    using humanReadableSize_1024 humanReadableSize_MB humanReadableSize_0
      humanReadableSize_GB humanReadableSize_TB
    by (simp add: units_def)
qed

end
